theory Spec2Isabelle
  imports Complex_Main
begin

section \<open>The stress tester of \<open>api_stresstest.py\<close>\<close>

text \<open>
  The program is one class, \<open>APIStressTest\<close>, with three methods: \<open>make_request\<close> issues
  one HTTP request and records its outcome, \<open>run\<close> drives the requests in batches, and
  \<open>show_results\<close> derives the statistics.

  Modelling decisions.
  \<^item> Python's unbounded integers are \<open>int\<close>; list positions and lengths are \<open>nat\<close>.
  \<^item> Python's floats (the elapsed times of \<open>time.perf_counter\<close>, the factors \<open>0.95\<close>
    and \<open>0.99\<close>, the quotients) are exact rationals \<open>rat\<close>: rounding is not modelled.
  \<^item> A raised exception is a value of \<open>error\<close> on the left of a sum.
  \<^item> The network is a parameter: for every request number it says what the HTTP call
    does (a response with a status after some elapsed time, or an exception after some
    elapsed time) and when the request completes relative to the others of its batch.
\<close>

subsection \<open>Exceptions\<close>

datatype error = ValueError | ZeroDivisionError | IndexError | StatisticsError

definition bind :: "error + 'a \<Rightarrow> ('a \<Rightarrow> error + 'b) \<Rightarrow> error + 'b" where
  "bind r f = (case r of Inl e \<Rightarrow> Inl e | Inr v \<Rightarrow> f v)"

subsection \<open>The object\<close>

record APIStressTest =
  url :: string
  http_method :: string
  data :: "string option"
  headers :: "(string \<times> string) list"
  num_requests :: int
  concurrency :: int
  timeout :: int
  results :: "rat list"
  failed_requests :: int
  successful_requests :: int

text \<open>
  \<open>str.upper\<close> on ASCII letters. Other characters are left as they are, also the few
  outside ASCII that \<open>str.upper\<close> maps to an ASCII letter.
\<close>

definition upper_char :: "char \<Rightarrow> char" where
  "upper_char c =
     (let n = (of_char c :: nat) in if 97 \<le> n \<and> n \<le> 122 then char_of (n - 32) else c)"

definition upper :: "string \<Rightarrow> string" where
  "upper s = map upper_char s"

text \<open>\<open>__init__\<close>: \<open>headers or {}\<close> replaces a missing header mapping by the empty one.\<close>

definition init ::
  "string \<Rightarrow> string \<Rightarrow> string option \<Rightarrow> (string \<times> string) list option \<Rightarrow> int \<Rightarrow> int \<Rightarrow> int
     \<Rightarrow> APIStressTest" where
  "init u m d h n c t =
     \<lparr> url = u, http_method = upper m, data = d,
       headers = (case h of None \<Rightarrow> [] | Some hs \<Rightarrow> hs),
       num_requests = n, concurrency = c, timeout = t,
       results = [], failed_requests = 0, successful_requests = 0 \<rparr>"

subsection \<open>One request\<close>

text \<open>
  What the HTTP call of one request does: \<open>Response status elapsed\<close> when the body has been
  read and \<open>response.status\<close> is \<open>status\<close>, \<open>elapsed\<close> being \<open>end_time - start_time\<close> of
  lines 46-47; \<open>Raised elapsed\<close> when the call raises, \<open>elapsed\<close> being the difference
  taken in the handler, lines 58-59.
\<close>

datatype outcome = Response int rat | Raised rat

text \<open>What a request writes to the console, and the reading of its start time.\<close>

datatype event =
    Begin int
  | Unsupported int
  | Completed int int rat
  | Failed int rat

text \<open>
  The part of \<open>make_request\<close> after the HTTP call, lines 46-55 and 57-61. It has no
  \<open>await\<close>, so on the event loop it runs without interleaving.
\<close>

definition record_outcome :: "outcome \<Rightarrow> int \<Rightarrow> APIStressTest \<Rightarrow> APIStressTest \<times> event" where
  "record_outcome oc request_id self =
     (case oc of
        Response status elapsed \<Rightarrow>
          (let self1 = self\<lparr>results := results self @ [elapsed]\<rparr>;
               self2 = (if 200 \<le> status \<and> status < 300
                        then self1\<lparr>successful_requests := successful_requests self1 + 1\<rparr>
                        else self1\<lparr>failed_requests := failed_requests self1 + 1\<rparr>)
           in (self2, Completed request_id status elapsed))
      | Raised elapsed \<Rightarrow>
          (self\<lparr>failed_requests := failed_requests self + 1\<rparr>, Failed request_id elapsed))"

definition make_request :: "outcome \<Rightarrow> int \<Rightarrow> APIStressTest \<Rightarrow> APIStressTest \<times> event" where
  "make_request oc request_id self =
     (if http_method self = ''GET'' then record_outcome oc request_id self
      else if http_method self = ''POST'' then record_outcome oc request_id self
      else if http_method self = ''PUT'' then record_outcome oc request_id self
      else if http_method self = ''DELETE'' then record_outcome oc request_id self
      else (self, Unsupported request_id))"

definition supported :: "string \<Rightarrow> bool" where
  "supported m \<longleftrightarrow> m \<in> set [''GET'', ''POST'', ''PUT'', ''DELETE'']"

subsection \<open>The run\<close>

record network =
  reply :: "int \<Rightarrow> outcome"
  completes :: "int \<Rightarrow> nat"

text \<open>\<open>range(i, stop, step)\<close> for a positive step.\<close>

function range_step :: "nat \<Rightarrow> nat \<Rightarrow> nat \<Rightarrow> nat list" where
  "range_step i stop step =
     (if step = 0 \<or> stop \<le> i then [] else i # range_step (i + step) stop step)"
  by pat_completeness auto
termination
  by (relation "measure (\<lambda>(i, stop, step). stop - i)") auto

declare range_step.simps [simp del]

text \<open>The slices \<open>tasks[i:i+c]\<close> of the loop of lines 79-80.\<close>

definition batches :: "'a list \<Rightarrow> nat \<Rightarrow> 'a list list" where
  "batches tasks c = map (\<lambda>i. drop i (take (i + c) tasks)) (range_step 0 (length tasks) c)"

text \<open>
  \<open>await asyncio.gather(*batch)\<close>: the requests of the batch are started in the order of
  the batch, each completes when the network lets it, and \<open>gather\<close> returns when all
  have completed. The completion order is the batch sorted by \<open>completes\<close>.
  The events of a batch are all its beginnings, then its ends: a request that never
  suspends (an unsupported method, an exception before the first \<open>await\<close>) in fact ends
  before the next one of its batch begins. The order of the events inside one batch is
  therefore not meant; the object after the batch and the order between batches are.
\<close>

definition finish :: "network \<Rightarrow> APIStressTest \<times> event list \<Rightarrow> int \<Rightarrow> APIStressTest \<times> event list" where
  "finish net w i =
     (let (self', e) = make_request (reply net i) i (fst w) in (self', snd w @ [e]))"

definition gather :: "network \<Rightarrow> APIStressTest \<times> event list \<Rightarrow> int list \<Rightarrow> APIStressTest \<times> event list" where
  "gather net w batch =
     foldl (finish net) (fst w, snd w @ map Begin batch) (sort_key (completes net) batch)"

text \<open>
  Lines 74-81 of \<open>run\<close>. \<open>range(0, len(tasks), 0)\<close> raises \<open>ValueError\<close>; with a negative
  step the range is empty and no batch runs.
\<close>

definition dispatch :: "network \<Rightarrow> APIStressTest \<Rightarrow> error + APIStressTest \<times> event list" where
  "dispatch net self =
     (let tasks = [1..num_requests self] in
      if concurrency self = 0 then Inl ValueError
      else if concurrency self < 0 then Inr (self, [])
      else Inr (foldl (gather net) (self, []) (batches tasks (nat (concurrency self)))))"

subsection \<open>The statistics\<close>

definition truediv :: "rat \<Rightarrow> rat \<Rightarrow> error + rat" where
  "truediv a b = (if b = 0 then Inl ZeroDivisionError else Inr (a / b))"

text \<open>\<open>int(x)\<close> truncates towards zero.\<close>

definition py_int :: "rat \<Rightarrow> int" where
  "py_int x = (if 0 \<le> x then \<lfloor>x\<rfloor> else \<lceil>x\<rceil>)"

text \<open>\<open>xs[i]\<close>: a negative index counts from the end.\<close>

definition getitem :: "'a list \<Rightarrow> int \<Rightarrow> error + 'a" where
  "getitem xs i =
     (let n = int (length xs); j = (if i < 0 then n + i else i)
      in if 0 \<le> j \<and> j < n then Inr (xs ! nat j) else Inl IndexError)"

definition mean :: "rat list \<Rightarrow> error + rat" where
  "mean xs = (if xs = [] then Inl StatisticsError else Inr (sum_list xs / of_nat (length xs)))"

definition py_min :: "rat list \<Rightarrow> error + rat" where
  "py_min xs = (if xs = [] then Inl ValueError else Inr (Min (set xs)))"

definition py_max :: "rat list \<Rightarrow> error + rat" where
  "py_max xs = (if xs = [] then Inl ValueError else Inr (Max (set xs)))"

text \<open>\<open>statistics.median\<close>: the middle of the sorted data, or the mean of the two middles.\<close>

definition median :: "rat list \<Rightarrow> error + rat" where
  "median xs =
     (let srt = sort xs; n = length srt in
      if n = 0 then Inl StatisticsError
      else if n mod 2 = 1 then Inr (srt ! (n div 2))
      else Inr ((srt ! (n div 2 - 1) + srt ! (n div 2)) / 2))"

text \<open>The index \<open>int(len(self.results) * q)\<close> of lines 106-107.\<close>

definition pct_index :: "rat \<Rightarrow> nat \<Rightarrow> int" where
  "pct_index q n = py_int (of_nat n * q)"

text \<open>
  The \<open>try\<close> of lines 105-110, with the two indices as parameters: one handler covers
  both reads, so a failure of either sets both to \<open>"N/A"\<close>, here \<open>None\<close>.
\<close>

definition percentiles_at :: "rat list \<Rightarrow> int \<Rightarrow> int \<Rightarrow> rat option \<times> rat option" where
  "percentiles_at xs i j =
     (case getitem (sort xs) i of
        Inl e \<Rightarrow> (None, None)
      | Inr a \<Rightarrow> (case getitem (sort xs) j of
                    Inl e \<Rightarrow> (None, None)
                  | Inr b \<Rightarrow> (Some a, Some b)))"

definition percentiles :: "rat list \<Rightarrow> rat option \<times> rat option" where
  "percentiles xs =
     percentiles_at xs (pct_index (95 / 100) (length xs)) (pct_index (99 / 100) (length xs))"

record summary =
  total_requests :: int
  successful :: int
  failed :: int
  success_rate :: rat
  avg_time :: rat
  min_time :: rat
  max_time :: rat
  median_time :: rat
  p95_time :: rat
  p99_time :: rat
  requests_per_second :: rat

datatype report = NoData | Results summary

text \<open>The expression of line 96.\<close>

definition rate :: "APIStressTest \<Rightarrow> error + rat" where
  "rate self =
     bind (truediv (of_int (successful_requests self)) (of_int (num_requests self)))
       (\<lambda>q. Inr (q * 100))"

text \<open>
  The format \<open>.3f\<close> of lines 120-121 applies to the whole conditional expression, so
  formatting the string \<open>"N/A"\<close> raises \<open>ValueError\<close>.
\<close>

definition format_3f :: "rat option \<Rightarrow> error + rat" where
  "format_3f p = (case p of None \<Rightarrow> Inl ValueError | Some v \<Rightarrow> Inr v)"

text \<open>
  \<open>show_results\<close>, in the order in which the source evaluates: the guard, the success
  rate printed at line 96, the statistics, the percentiles, the throughput of line 113,
  the printing. The object is returned beside the report.
\<close>

definition summarize :: "APIStressTest \<Rightarrow> error + report" where
  "summarize self =
     (if results self = [] then Inr NoData
      else
        bind (rate self) (\<lambda>sr.
        let total_time = sum_list (results self) in
        bind (mean (results self)) (\<lambda>avg.
        bind (py_min (results self)) (\<lambda>mn.
        bind (py_max (results self)) (\<lambda>mx.
        bind (median (results self)) (\<lambda>md.
        let (p95, p99) = percentiles (results self) in
        bind (truediv (of_int (successful_requests self)) total_time) (\<lambda>rps.
        bind (format_3f p95) (\<lambda>v95.
        bind (format_3f p99) (\<lambda>v99.
        Inr (Results
          \<lparr> total_requests = num_requests self,
            successful = successful_requests self,
            failed = failed_requests self,
            success_rate = sr, avg_time = avg, min_time = mn, max_time = mx,
            median_time = md, p95_time = v95, p99_time = v99,
            requests_per_second = rps \<rparr>))))))))))"

definition show_results :: "APIStressTest \<Rightarrow> (error + report) \<times> APIStressTest" where
  "show_results self = (summarize self, self)"

text \<open>\<open>run\<close>: the batches, then \<open>show_results\<close>.\<close>

definition run ::
  "network \<Rightarrow> APIStressTest \<Rightarrow> (error + report) \<times> APIStressTest \<times> event list" where
  "run net self =
     (case dispatch net self of
        Inl e \<Rightarrow> (Inl e, self, [])
      | Inr (self', out) \<Rightarrow>
          (let (r, self'') = show_results self' in (r, self'', out)))"

subsection \<open>\<open>show_results\<close> on a store of list objects\<close>

text \<open>
  \<open>show_results\<close> once more, now on a store in which lists are objects with an
  address, so that building a new list and changing a list in place differ. The store
  holds the attributes of \<open>self\<close> that \<open>show_results\<close> reads: the three integers, and
  for \<open>self.results\<close> the address of a list object. The address of a list object is its
  position in \<open>objects\<close>; a new list is appended.
\<close>

type_synonym addr = nat

record heap =
  attr_num_requests :: int
  attr_successful_requests :: int
  attr_failed_requests :: int
  attr_results :: addr
  objects :: "rat list list"

text \<open>A statement or expression: it runs on a store, gives a value or raises, and leaves a store.\<close>

type_synonym 'a action = "heap \<Rightarrow> (error + 'a) \<times> heap"

definition pure :: "'a \<Rightarrow> 'a action" where
  "pure v h = (Inr v, h)"

definition lift :: "error + 'a \<Rightarrow> 'a action" where
  "lift r h = (r, h)"

definition andthen :: "'a action \<Rightarrow> ('a \<Rightarrow> 'b action) \<Rightarrow> 'b action" where
  "andthen p f h = (case p h of (Inl e, h') \<Rightarrow> (Inl e, h') | (Inr v, h') \<Rightarrow> f v h')"

text \<open>\<open>try: p except e: q\<close>: the handler runs on the store that \<open>p\<close> left.\<close>

definition try_except :: "'a action \<Rightarrow> error \<Rightarrow> 'a action \<Rightarrow> 'a action" where
  "try_except p e q h =
     (case p h of
        (Inl e', h') \<Rightarrow> if e' = e then q h' else (Inl e', h')
      | (Inr v, h') \<Rightarrow> (Inr v, h'))"

text \<open>Reading an attribute of \<open>self\<close>.\<close>

definition attr :: "(heap \<Rightarrow> 'a) \<Rightarrow> 'a action" where
  "attr field h = (Inr (field h), h)"

text \<open>
  A function that only reads the list at an address: \<open>len\<close>, \<open>sum\<close>, \<open>min\<close>, \<open>max\<close>,
  \<open>statistics.mean\<close>, truth value, indexing.
\<close>

definition on_list :: "(rat list \<Rightarrow> error + 'a) \<Rightarrow> addr \<Rightarrow> 'a action" where
  "on_list f a h = (f (objects h ! a), h)"

text \<open>\<open>sorted(xs)\<close> builds a new list object and leaves its argument alone.\<close>

definition py_sorted :: "addr \<Rightarrow> addr action" where
  "py_sorted a h = (Inr (length (objects h)), h\<lparr>objects := objects h @ [sort (objects h ! a)]\<rparr>)"

text \<open>
  \<open>xs.sort()\<close> sorts the list object itself. \<open>show_results\<close> does not call it; it is
  here for comparison with \<open>sorted\<close>.
\<close>

definition list_sort :: "addr \<Rightarrow> unit action" where
  "list_sort a h = (Inr (), h\<lparr>objects := (objects h)[a := sort (objects h ! a)]\<rparr>)"

text \<open>\<open>statistics.median(data)\<close> starts with \<open>data = sorted(data)\<close>, a new list.\<close>

definition median_of :: "addr \<Rightarrow> rat action" where
  "median_of a =
     andthen (py_sorted a) (\<lambda>d.
     andthen (on_list (\<lambda>xs. Inr (length xs)) d) (\<lambda>n.
     if n = 0 then lift (Inl StatisticsError)
     else if n mod 2 = 1 then on_list (\<lambda>xs. Inr (xs ! (n div 2))) d
     else on_list (\<lambda>xs. Inr ((xs ! (n div 2 - 1) + xs ! (n div 2)) / 2)) d))"

text \<open>\<open>sorted(self.results)[int(len(self.results) * q)]\<close> of lines 106-107.\<close>

definition percentile_of :: "rat \<Rightarrow> rat action" where
  "percentile_of q =
     andthen (attr attr_results) (\<lambda>a.
     andthen (py_sorted a) (\<lambda>s.
     andthen (attr attr_results) (\<lambda>a'.
     andthen (on_list (\<lambda>xs. Inr (length xs)) a') (\<lambda>n.
     on_list (\<lambda>xs. getitem xs (py_int (of_nat n * q))) s))))"

text \<open>The \<open>try\<close> of lines 105-110.\<close>

definition try_percentiles :: "(rat option \<times> rat option) action" where
  "try_percentiles =
     try_except
       (andthen (percentile_of (95 / 100)) (\<lambda>p95.
        andthen (percentile_of (99 / 100)) (\<lambda>p99.
        pure (Some p95, Some p99))))
       IndexError
       (pure (None, None))"

text \<open>Lines 85-122, statement by statement; every use of \<open>self.x\<close> reads the attribute.\<close>

definition show_results_in :: "report action" where
  "show_results_in =
     andthen (attr attr_results) (\<lambda>a.
     andthen (on_list (\<lambda>xs. Inr (xs = [])) a) (\<lambda>none.
     if none then pure NoData
     else
       andthen (attr attr_num_requests) (\<lambda>total.
       andthen (attr attr_successful_requests) (\<lambda>succ.
       andthen (attr attr_failed_requests) (\<lambda>fl.
       andthen (attr attr_successful_requests) (\<lambda>s1.
       andthen (attr attr_num_requests) (\<lambda>n1.
       andthen (lift (truediv (of_int s1) (of_int n1))) (\<lambda>q.
       andthen (andthen (attr attr_results) (on_list (\<lambda>xs. Inr (sum_list xs)))) (\<lambda>total_time.
       andthen (andthen (attr attr_results) (on_list mean)) (\<lambda>avg.
       andthen (andthen (attr attr_results) (on_list py_min)) (\<lambda>mn.
       andthen (andthen (attr attr_results) (on_list py_max)) (\<lambda>mx.
       andthen (andthen (attr attr_results) median_of) (\<lambda>md.
       andthen try_percentiles (\<lambda>(p95, p99).
       andthen (attr attr_successful_requests) (\<lambda>s2.
       andthen (lift (truediv (of_int s2) total_time)) (\<lambda>rps.
       andthen (lift (format_3f p95)) (\<lambda>v95.
       andthen (lift (format_3f p99)) (\<lambda>v99.
       pure (Results
         \<lparr> total_requests = total, successful = succ, failed = fl,
           success_rate = q * 100, avg_time = avg, min_time = mn, max_time = mx,
           median_time = md, p95_time = v95, p99_time = v99,
           requests_per_second = rps \<rparr>)))))))))))))))))))"

text \<open>The store holds the object: its integers, and at \<open>self.results\<close> its list of durations.\<close>

definition object_in :: "heap \<Rightarrow> APIStressTest \<Rightarrow> bool" where
  "object_in h self \<longleftrightarrow>
     attr_num_requests h = num_requests self \<and>
     attr_successful_requests h = successful_requests self \<and>
     attr_failed_requests h = failed_requests self \<and>
     attr_results h < length (objects h) \<and>
     objects h ! attr_results h = results self"

subsection \<open>Notions used to state the properties\<close>

text \<open>Line 50: the outcome is counted as a success.\<close>

fun ok :: "outcome \<Rightarrow> bool" where
  "ok (Response status elapsed) \<longleftrightarrow> 200 \<le> status \<and> status < 300"
| "ok (Raised elapsed) \<longleftrightarrow> False"

text \<open>The HTTP call raised: the handler of lines 57-61 ran.\<close>

fun raised :: "outcome \<Rightarrow> bool" where
  "raised (Response status elapsed) \<longleftrightarrow> False"
| "raised (Raised elapsed) \<longleftrightarrow> True"

text \<open>The elapsed time that the request measured, whichever way it ended.\<close>

fun elapsed_of :: "outcome \<Rightarrow> rat" where
  "elapsed_of (Response status elapsed) = elapsed"
| "elapsed_of (Raised elapsed) = elapsed"

text \<open>The elapsed times that a sequence of outcomes appends to \<open>self.results\<close>.\<close>

fun durations :: "outcome list \<Rightarrow> rat list" where
  "durations [] = []"
| "durations (Response status elapsed # ocs) = elapsed # durations ocs"
| "durations (Raised elapsed # ocs) = durations ocs"

text \<open>
  What a sequence of outcomes, in the order of completion, does to the object when the
  method is one of the four that \<open>make_request\<close> knows.
\<close>

definition effect :: "outcome list \<Rightarrow> APIStressTest \<Rightarrow> APIStressTest" where
  "effect ocs self =
     (if supported (http_method self)
      then self\<lparr>results := results self @ durations ocs,
             failed_requests := failed_requests self + int (length (filter (\<lambda>oc. \<not> ok oc) ocs)),
             successful_requests := successful_requests self + int (length (filter ok ocs))\<rparr>
      else self)"

text \<open>The line that a request prints when it ends.\<close>

definition report_of :: "string \<Rightarrow> outcome \<Rightarrow> int \<Rightarrow> event" where
  "report_of m oc i =
     (if supported m
      then (case oc of Response status elapsed \<Rightarrow> Completed i status elapsed
            | Raised elapsed \<Rightarrow> Failed i elapsed)
      else Unsupported i)"

text \<open>The events of one batch: its requests begin, then each reports as it completes.\<close>

definition batch_events :: "network \<Rightarrow> string \<Rightarrow> int list \<Rightarrow> event list" where
  "batch_events net m batch =
     map Begin batch @ map (\<lambda>i. report_of m (reply net i) i) (sort_key (completes net) batch)"

text \<open>The batches of a run: the slices of \<open>tasks\<close> of lines 74-80.\<close>

definition batches_of :: "APIStressTest \<Rightarrow> int list list" where
  "batches_of self = batches [1..num_requests self] (nat (concurrency self))"

text \<open>The request numbers of a run in the order in which the requests complete.\<close>

definition completion_order :: "network \<Rightarrow> APIStressTest \<Rightarrow> int list" where
  "completion_order net self =
     concat (map (sort_key (completes net))
       (batches [1..num_requests self] (nat (concurrency self))))"

text \<open>The request whose end an event reports, if the event is such a report.\<close>

fun ends :: "event \<Rightarrow> int option" where
  "ends (Begin i) = None"
| "ends (Unsupported i) = Some i"
| "ends (Completed i status elapsed) = Some i"
| "ends (Failed i elapsed) = Some i"

subsection \<open>Concrete objects and networks\<close>

text \<open>
  Ten requests configured, seven durations recorded, seven successes: the state of the
  object when \<open>show_results\<close> is entered in the example of the success rate.
\<close>

definition seven_of_ten :: APIStressTest where
  "seven_of_ten =
     (init ''http://x'' ''GET'' None None 10 4 30)
       \<lparr>results := [1, 1, 1, 1, 1, 1, 1], successful_requests := 7\<rparr>"

text \<open>A network on which every request is answered \<open>200\<close> with an elapsed time of zero.\<close>

definition instant :: network where
  "instant = \<lparr> reply = (\<lambda>i. Response 200 0), completes = (\<lambda>i. 0) \<rparr>"

definition single_get :: APIStressTest where
  "single_get = init ''http://localhost'' ''GET'' None None 1 1 30"

text \<open>A network on which every request raises after one second, as on a timeout of 1s.\<close>

definition always_raises :: network where
  "always_raises = \<lparr> reply = (\<lambda>i. Raised 1), completes = (\<lambda>i. 0) \<rparr>"

text \<open>Four requests, two at a time, timeout 1s.\<close>

definition four_by_two :: APIStressTest where
  "four_by_two = init ''http://localhost'' ''GET'' None None 4 2 1"

text \<open>The second request raises; the others are answered \<open>200\<close>; later requests of a batch complete first.\<close>

definition flaky :: network where
  "flaky = \<lparr> reply = (\<lambda>i. if i = 2 then Raised 1 else Response 200 (1 / 2)),
             completes = (\<lambda>i. nat (4 - i)) \<rparr>"

text \<open>Every request is answered \<open>503\<close> after a quarter of a second.\<close>

definition always_503 :: network where
  "always_503 = \<lparr> reply = (\<lambda>i. Response 503 (1 / 4)), completes = (\<lambda>i. 0) \<rparr>"

text \<open>
  A store with two list objects, of which the second is \<open>self.results\<close>, not sorted, and
  the object that it holds.
\<close>

definition unsorted_heap :: heap where
  "unsorted_heap =
     \<lparr> attr_num_requests = 3, attr_successful_requests = 2, attr_failed_requests = 1,
       attr_results = 1, objects = [[9], [3 / 10, 1 / 10, 2 / 10]] \<rparr>"

definition unsorted_object :: APIStressTest where
  "unsorted_object =
     (init ''http://localhost'' ''GET'' None None 3 2 30)
       \<lparr>results := [3 / 10, 1 / 10, 2 / 10], failed_requests := 1, successful_requests := 2\<rparr>"

section \<open>Properties of the statistics\<close>

lemma bind_Inr [simp]: "bind (Inr v) f = f v"
  by (simp add: bind_def)

lemma bind_Inl [simp]: "bind (Inl e) f = Inl e"
  by (simp add: bind_def)

lemma pct_index_frac: "pct_index (of_nat a / of_nat b) n = int ((a * n) div b)"
proof -
  have "of_nat n * (of_nat a / of_nat b :: rat) = of_int (int (a * n)) / of_int (int b)"
    by simp
  then have "\<lfloor>of_nat n * (of_nat a / of_nat b :: rat)\<rfloor> = int (a * n) div int b"
    by (simp only: floor_divide_of_int_eq)
  moreover have "(0::rat) \<le> of_nat n * (of_nat a / of_nat b)"
    by simp
  ultimately show ?thesis
    by (simp only: pct_index_def py_int_def zdiv_int if_True)
qed

lemma pct_index_95: "pct_index (95 / 100) n = int ((95 * n) div 100)"
  using pct_index_frac [of 95 100 n] by simp

lemma pct_index_99: "pct_index (99 / 100) n = int ((99 * n) div 100)"
  using pct_index_frac [of 99 100 n] by simp

lemma sort_eq_Nil_iff: "sort xs = [] \<longleftrightarrow> xs = []"
  by (metis length_0_conv length_sort)

lemma getitem_nat: "getitem xs (int k) = (if k < length xs then Inr (xs ! k) else Inl IndexError)"
  by (simp add: getitem_def)

lemma percentiles_nonempty:
  assumes "xs \<noteq> []"
  shows "percentiles xs =
    (Some (sort xs ! ((95 * length xs) div 100)), Some (sort xs ! ((99 * length xs) div 100)))"
proof -
  from assms have "0 < length xs" by simp
  then have "(95 * length xs) div 100 < length xs" "(99 * length xs) div 100 < length xs"
    by arith+
  then show ?thesis
    unfolding percentiles_def pct_index_95 pct_index_99
    by (simp add: percentiles_at_def getitem_nat)
qed

lemma nth_sort_bounds:
  assumes "i < length xs"
  shows "Min (set xs) \<le> sort xs ! i" and "sort xs ! i \<le> Max (set xs)"
proof -
  from assms have "i < length (sort xs)" by simp
  then have "sort xs ! i \<in> set (sort xs)" by (rule nth_mem)
  then have "sort xs ! i \<in> set xs" by simp
  then show "Min (set xs) \<le> sort xs ! i" and "sort xs ! i \<le> Max (set xs)" by simp_all
qed

lemma member_le_sum_list_nonneg:
  fixes xs :: "rat list"
  shows "x \<in> set xs \<Longrightarrow> \<forall>y\<in>set xs. 0 \<le> y \<Longrightarrow> x \<le> sum_list xs"
proof (induction xs)
  case Nil
  then show ?case by simp
next
  case (Cons a xs)
  then have nn: "0 \<le> a" "0 \<le> sum_list xs" by (simp_all add: sum_list_nonneg)
  show ?case
  proof (cases "x = a")
    case True
    with nn show ?thesis by simp
  next
    case False
    with Cons have "x \<le> sum_list xs" by simp
    with nn show ?thesis by simp
  qed
qed

lemma median_nonempty:
  assumes "xs \<noteq> []"
  shows "\<exists>md. median xs = Inr md \<and> Min (set xs) \<le> md \<and> md \<le> Max (set xs)"
proof -
  let ?n = "length xs"
  from assms have pos: "0 < ?n" by simp
  show ?thesis
  proof (cases "?n mod 2 = 1")
    case True
    have "?n div 2 < ?n" using pos by simp
    from nth_sort_bounds [OF this] True pos show ?thesis
      by (simp add: median_def Let_def sort_eq_Nil_iff)
  next
    case False
    then have "2 \<le> ?n" using pos by arith
    then have a: "?n div 2 - 1 < ?n" and b: "?n div 2 < ?n" by arith+
    have lo: "Min (set xs) \<le> (sort xs ! (?n div 2 - 1) + sort xs ! (?n div 2)) / 2"
      using nth_sort_bounds(1) [OF a] nth_sort_bounds(1) [OF b] by simp
    have hi: "(sort xs ! (?n div 2 - 1) + sort xs ! (?n div 2)) / 2 \<le> Max (set xs)"
      using nth_sort_bounds(2) [OF a] nth_sort_bounds(2) [OF b] by simp
    have eq: "median xs = Inr ((sort xs ! (?n div 2 - 1) + sort xs ! (?n div 2)) / 2)"
      using False pos by (simp add: median_def Let_def sort_eq_Nil_iff)
    from lo hi show ?thesis
      unfolding eq by blast
  qed
qed

lemma summarize_Results:
  assumes ne: "results self \<noteq> []" and n0: "num_requests self \<noteq> 0"
    and s0: "sum_list (results self) \<noteq> 0"
  shows "\<exists>md. median (results self) = Inr md \<and> summarize self = Inr (Results
      \<lparr> total_requests = num_requests self,
        successful = successful_requests self,
        failed = failed_requests self,
        success_rate = of_int (successful_requests self) / of_int (num_requests self) * 100,
        avg_time = sum_list (results self) / of_nat (length (results self)),
        min_time = Min (set (results self)),
        max_time = Max (set (results self)),
        median_time = md,
        p95_time = sort (results self) ! ((95 * length (results self)) div 100),
        p99_time = sort (results self) ! ((99 * length (results self)) div 100),
        requests_per_second = of_int (successful_requests self) / sum_list (results self) \<rparr>)"
proof -
  from median_nonempty [OF ne] obtain md where md: "median (results self) = Inr md" by blast
  show ?thesis
    using ne n0 s0 md
    by (simp add: summarize_def rate_def truediv_def mean_def py_min_def py_max_def
        percentiles_nonempty format_3f_def Let_def)
qed

lemma summarize_zero_sum:
  assumes ne: "results self \<noteq> []" and n0: "num_requests self \<noteq> 0"
    and s0: "sum_list (results self) = 0"
  shows "summarize self = Inl ZeroDivisionError"
proof -
  from median_nonempty [OF ne] obtain md where md: "median (results self) = Inr md" by blast
  show ?thesis
    using ne n0 s0 md
    by (simp add: summarize_def rate_def truediv_def mean_def py_min_def py_max_def
        percentiles_nonempty format_3f_def Let_def)
qed

lemma nth_sort_last:
  assumes "xs \<noteq> []"
  shows "sort xs ! (length xs - 1) = Max (set xs)"
proof -
  let ?s = "sort xs"
  from assms have len: "length xs - 1 < length ?s" by simp
  have "Max (set ?s) = ?s ! (length xs - 1)"
  proof (rule Max_eqI)
    show "finite (set ?s)" by simp
    show "?s ! (length xs - 1) \<in> set ?s" using len by (rule nth_mem)
  next
    fix y assume "y \<in> set ?s"
    then obtain i where i: "i < length ?s" "?s ! i = y" by (metis in_set_conv_nth)
    then have "i \<le> length xs - 1" by simp
    with len have "?s ! i \<le> ?s ! (length xs - 1)"
      using sorted_nth_mono [of ?s i "length xs - 1"] by simp
    with i show "y \<le> ?s ! (length xs - 1)" by simp
  qed
  then show ?thesis by simp
qed

section \<open>Properties of \<open>show_results\<close> on the store\<close>

lemma andthen_Inr: "p h = (Inr v, h') \<Longrightarrow> andthen p f h = f v h'"
  by (simp add: andthen_def)

lemma andthen_Inl: "p h = (Inl e, h') \<Longrightarrow> andthen p f h = (Inl e, h')"
  by (simp add: andthen_def)

lemma andthen_attr [simp]: "andthen (attr field) f h = f (field h) h"
  by (simp add: andthen_def attr_def)

lemma andthen_lift_Inr [simp]: "andthen (lift (Inr v)) f h = f v h"
  by (simp add: andthen_def lift_def)

lemma andthen_lift_Inl [simp]: "andthen (lift (Inl e)) f h = (Inl e, h)"
  by (simp add: andthen_def lift_def)

lemma object_in_alloc:
  assumes "object_in h self"
  shows "object_in (h\<lparr>objects := objects h @ new\<rparr>) self"
  using assms by (simp add: object_in_def nth_append)

lemma py_sorted_results:
  assumes "object_in h self"
  shows "py_sorted (attr_results h) h =
    (Inr (length (objects h)), h\<lparr>objects := objects h @ [sort (results self)]\<rparr>)"
  using assms by (simp add: py_sorted_def object_in_def)

lemma on_list_results:
  assumes "object_in h self"
  shows "on_list f (attr_results h) h = (f (results self), h)"
  using assms by (simp add: on_list_def object_in_def)

lemma on_list_new:
  "on_list f (length (objects h)) (h\<lparr>objects := objects h @ [xs]\<rparr>) =
     (f xs, h\<lparr>objects := objects h @ [xs]\<rparr>)"
  by (simp add: on_list_def)

lemma median_of_results:
  assumes "object_in h self"
  shows "median_of (attr_results h) h =
    (median (results self), h\<lparr>objects := objects h @ [sort (results self)]\<rparr>)"
proof -
  let ?h1 = "h\<lparr>objects := objects h @ [sort (results self)]\<rparr>"
  have len: "on_list (\<lambda>xs. Inr (length xs)) (length (objects h)) ?h1
      = (Inr (length (sort (results self))), ?h1)"
    by (rule on_list_new)
  show ?thesis
    unfolding median_of_def
    by (simp add: andthen_def py_sorted_results [OF assms] len
        on_list_new lift_def median_def Let_def sort_eq_Nil_iff)
qed

lemma percentile_of_results:
  assumes "object_in h self"
  shows "percentile_of q h =
    (getitem (sort (results self)) (pct_index q (length (results self))),
     h\<lparr>objects := objects h @ [sort (results self)]\<rparr>)"
proof -
  let ?h1 = "h\<lparr>objects := objects h @ [sort (results self)]\<rparr>"
  have o1: "object_in ?h1 self" using assms by (rule object_in_alloc)
  have a1: "attr_results ?h1 = attr_results h" by simp
  have len: "on_list (\<lambda>xs. Inr (length xs)) (attr_results h) ?h1 = (Inr (length (results self)), ?h1)"
    using on_list_results [OF o1, of "\<lambda>xs. Inr (length xs)"] by simp
  show ?thesis
    unfolding percentile_of_def
    by (simp add: andthen_def attr_def py_sorted_results [OF assms] len
        on_list_new pct_index_def)
qed

lemma try_percentiles_results:
  assumes o: "object_in h self" and ne: "results self \<noteq> []"
  shows "try_percentiles h =
    (Inr (percentiles (results self)),
     h\<lparr>objects := objects h @ [sort (results self), sort (results self)]\<rparr>)"
proof -
  let ?xs = "results self"
  let ?h1 = "h\<lparr>objects := objects h @ [sort ?xs]\<rparr>"
  from ne have lt: "(95 * length ?xs) div 100 < length ?xs" "(99 * length ?xs) div 100 < length ?xs"
    by (simp_all add: div_less_iff_less_mult)
  have o1: "object_in ?h1 self" using o by (rule object_in_alloc)
  have p95: "percentile_of (95 / 100) h = (Inr (sort ?xs ! ((95 * length ?xs) div 100)), ?h1)"
    unfolding percentile_of_results [OF o] pct_index_95 getitem_nat using lt by simp
  have p99: "percentile_of (99 / 100) ?h1 =
      (Inr (sort ?xs ! ((99 * length ?xs) div 100)),
       h\<lparr>objects := objects h @ [sort ?xs, sort ?xs]\<rparr>)"
    unfolding percentile_of_results [OF o1] pct_index_99 getitem_nat using lt by simp
  have "andthen (percentile_of (95 / 100)) (\<lambda>p95.
            andthen (percentile_of (99 / 100)) (\<lambda>p99.
            pure (Some p95, Some p99))) h =
      (Inr (Some (sort ?xs ! ((95 * length ?xs) div 100)),
            Some (sort ?xs ! ((99 * length ?xs) div 100))),
       h\<lparr>objects := objects h @ [sort ?xs, sort ?xs]\<rparr>)"
    unfolding andthen_def p95 by (simp add: p99 pure_def)
  then show ?thesis
    unfolding try_percentiles_def try_except_def percentiles_nonempty [OF ne] by simp
qed

lemma show_results_in_eq:
  assumes o: "object_in h self"
  shows "show_results_in h =
    (summarize self,
     h\<lparr>objects := objects h @
          (if results self = [] \<or> num_requests self = 0 then []
           else [sort (results self), sort (results self), sort (results self)])\<rparr>)"
proof -
  let ?xs = "results self"
  from o have attrs: "attr_num_requests h = num_requests self"
    "attr_successful_requests h = successful_requests self"
    "attr_failed_requests h = failed_requests self"
    by (simp_all add: object_in_def)
  have empty: "on_list (\<lambda>xs. Inr (xs = [])) (attr_results h) h = (Inr (?xs = []), h)"
    by (rule on_list_results [OF o])
  show ?thesis
  proof (cases "?xs = []")
    case True
    then show ?thesis
      unfolding show_results_in_def
      by (simp add: andthen_def attr_def empty pure_def summarize_def)
  next
    case ne: False
    show ?thesis
    proof (cases "num_requests self = 0")
      case True
      with ne show ?thesis
        unfolding show_results_in_def
        by (simp add: andthen_def attr_def empty attrs truediv_def lift_def
            summarize_def rate_def)
    next
      case n0: False
      let ?h1 = "h\<lparr>objects := objects h @ [sort ?xs]\<rparr>"
      let ?h3 = "h\<lparr>objects := objects h @ [sort ?xs, sort ?xs, sort ?xs]\<rparr>"
      have o1: "object_in ?h1 self" using o by (rule object_in_alloc)
      from median_nonempty [OF ne] obtain md where md: "median ?xs = Inr md" by blast
      have a1: "attr_successful_requests ?h1 = successful_requests self"
        by (simp add: attrs)
      have pct: "try_percentiles ?h1 = (Inr (percentiles ?xs), ?h3)"
        using try_percentiles_results [OF o1 ne] by simp
      have body: "show_results_in h =
          (case truediv (of_int (successful_requests self)) (sum_list ?xs) of
             Inl e \<Rightarrow> (Inl e, ?h3)
           | Inr rps \<Rightarrow>
               (Inr (Results
                 \<lparr> total_requests = num_requests self,
                   successful = successful_requests self,
                   failed = failed_requests self,
                   success_rate = of_int (successful_requests self) / of_int (num_requests self) * 100,
                   avg_time = sum_list ?xs / of_nat (length ?xs),
                   min_time = Min (set ?xs), max_time = Max (set ?xs), median_time = md,
                   p95_time = sort ?xs ! ((95 * length ?xs) div 100),
                   p99_time = sort ?xs ! ((99 * length ?xs) div 100),
                   requests_per_second = rps \<rparr>), ?h3))"
        unfolding show_results_in_def
        using ne n0
        by (simp add: andthen_def attr_def empty attrs truediv_def lift_def pure_def
            on_list_results [OF o] median_of_results [OF o] md mean_def py_min_def py_max_def
            pct percentiles_nonempty [OF ne] format_3f_def)
      show ?thesis
      proof (cases "sum_list ?xs = 0")
        case True
        with body ne n0 summarize_zero_sum [OF ne n0 True] show ?thesis
          by (simp add: truediv_def)
      next
        case False
        from summarize_Results [OF ne n0 False] md
        have "summarize self = Inr (Results
                 \<lparr> total_requests = num_requests self,
                   successful = successful_requests self,
                   failed = failed_requests self,
                   success_rate = of_int (successful_requests self) / of_int (num_requests self) * 100,
                   avg_time = sum_list ?xs / of_nat (length ?xs),
                   min_time = Min (set ?xs), max_time = Max (set ?xs), median_time = md,
                   p95_time = sort ?xs ! ((95 * length ?xs) div 100),
                   p99_time = sort ?xs ! ((99 * length ?xs) div 100),
                   requests_per_second = of_int (successful_requests self) / sum_list ?xs \<rparr>)"
          by auto
        with body ne n0 False show ?thesis
          by (simp add: truediv_def)
      qed
    qed
  qed
qed

lemma list_sort_reorders:
  "objects (snd (list_sort 1 unsorted_heap)) ! 1 = [1 / 10, 2 / 10, 3 / 10] \<and>
   objects (snd (list_sort 1 unsorted_heap)) ! 1 \<noteq> objects unsorted_heap ! 1"
  by (simp add: list_sort_def unsorted_heap_def)

section \<open>Properties of the run\<close>

lemma range_step_Nil: "range_step i stop step = [] \<longleftrightarrow> step = 0 \<or> stop \<le> i"
  by (subst range_step.simps) simp

lemma range_step_Cons:
  "\<not> (step = 0 \<or> stop \<le> i) \<Longrightarrow> range_step i stop step = i # range_step (i + step) stop step"
  by (subst range_step.simps) simp

lemma slice_append_drop: "drop i (take (i + c) xs) @ drop (i + c) xs = drop i xs"
proof -
  have "take c (drop i xs) @ drop c (drop i xs) = drop i xs"
    by (rule append_take_drop_id)
  then show ?thesis
    by (simp add: drop_take add.commute)
qed

lemma concat_slices:
  "0 < c \<Longrightarrow> n = length xs \<Longrightarrow>
   concat (map (\<lambda>i. drop i (take (i + c) xs)) (range_step k n c)) = drop k xs"
proof (induction k n c rule: range_step.induct)
  case (1 i stop step)
  show ?case
  proof (cases "stop \<le> i")
    case True
    then have "range_step i stop step = []" by (simp add: range_step_Nil)
    with True "1.prems" show ?thesis by simp
  next
    case False
    with "1.prems" have go: "\<not> (step = 0 \<or> stop \<le> i)" by simp
    from "1.IH" [OF this "1.prems"]
    have "concat (map (\<lambda>i. drop i (take (i + step) xs)) (range_step (i + step) stop step))
        = drop (i + step) xs" .
    then show ?thesis
      by (simp add: range_step_Cons [OF go] slice_append_drop)
  qed
qed

lemma concat_batches: "0 < c \<Longrightarrow> concat (batches xs c) = xs"
  using concat_slices [of c "length xs" xs 0] by (simp add: batches_def)

lemma cons_shape:
  assumes rest: "(\<forall>b\<in>set rest. b \<noteq> [] \<and> length b \<le> c) \<and> (\<forall>b\<in>set (butlast rest). length b = c)"
    and head: "h \<noteq> []" "length h \<le> c"
    and full: "rest \<noteq> [] \<Longrightarrow> length h = c"
  shows "(\<forall>b\<in>set (h # rest). b \<noteq> [] \<and> length b \<le> c) \<and>
    (\<forall>b\<in>set (butlast (h # rest)). length b = c)"
proof (cases "rest = []")
  case True
  with head show ?thesis by simp
next
  case False
  with rest head full [OF False] show ?thesis by simp
qed

lemma slices_shape:
  "0 < c \<Longrightarrow> n = length xs \<Longrightarrow>
   (\<forall>b\<in>set (map (\<lambda>i. drop i (take (i + c) xs)) (range_step k n c)). b \<noteq> [] \<and> length b \<le> c) \<and>
   (\<forall>b\<in>set (butlast (map (\<lambda>i. drop i (take (i + c) xs)) (range_step k n c))). length b = c)"
proof (induction k n c rule: range_step.induct)
  case (1 i stop step)
  show ?case
  proof (cases "stop \<le> i")
    case True
    then have "range_step i stop step = []" by (simp add: range_step_Nil)
    then show ?thesis by simp
  next
    case False
    define rest where "rest = map (\<lambda>i. drop i (take (i + step) xs)) (range_step (i + step) stop step)"
    define h where "h = drop i (take (i + step) xs)"
    from False "1.prems" have go: "\<not> (step = 0 \<or> stop \<le> i)" by simp
    from "1.IH" [OF this "1.prems"]
    have IH: "(\<forall>b\<in>set rest. b \<noteq> [] \<and> length b \<le> step) \<and>
        (\<forall>b\<in>set (butlast rest). length b = step)"
      unfolding rest_def .
    have unfold: "map (\<lambda>i. drop i (take (i + step) xs)) (range_step i stop step) = h # rest"
      unfolding rest_def h_def by (simp add: range_step_Cons [OF go])
    have len: "length h = min stop (i + step) - i"
      unfolding h_def using "1.prems" by simp
    from len False "1.prems" have "0 < length h" by arith
    then have h1: "h \<noteq> []" by auto
    from len have h2: "length h \<le> step" by arith
    have full: "length h = step" if "rest \<noteq> []"
    proof -
      from that have "range_step (i + step) stop step \<noteq> []"
        unfolding rest_def by auto
      then have "i + step < stop"
        by (simp add: range_step_Nil)
      with len show ?thesis by arith
    qed
    show ?thesis
      unfolding unfold using IH h1 h2 full by (rule cons_shape)
  qed
qed

lemma batches_shape:
  assumes "0 < c"
  shows "(\<forall>b\<in>set (batches xs c). b \<noteq> [] \<and> length b \<le> c) \<and>
    (\<forall>b\<in>set (butlast (batches xs c)). length b = c)"
  unfolding batches_def by (rule slices_shape [OF assms refl])

lemma durations_append: "durations (xs @ ys) = durations xs @ durations ys"
  by (induction xs rule: durations.induct) simp_all

lemma make_request_supported:
  "supported (http_method self) \<Longrightarrow> make_request oc i self = record_outcome oc i self"
  by (auto simp: make_request_def supported_def)

lemma make_request_unsupported:
  "\<not> supported (http_method self) \<Longrightarrow> make_request oc i self = (self, Unsupported i)"
  by (simp add: make_request_def supported_def)

lemma make_request_eq:
  "make_request oc i self = (effect [oc] self, report_of (http_method self) oc i)"
proof (cases "supported (http_method self)")
  case True
  then show ?thesis
    by (cases oc) (simp_all add: make_request_supported record_outcome_def effect_def report_of_def Let_def)
next
  case False
  then show ?thesis
    by (simp add: make_request_unsupported effect_def report_of_def)
qed

lemma http_method_effect [simp]: "http_method (effect ocs self) = http_method self"
  by (simp add: effect_def)

lemma effect_Nil [simp]: "effect [] self = self"
  by (simp add: effect_def)

lemma effect_append: "effect (xs @ ys) self = effect ys (effect xs self)"
  by (simp add: effect_def durations_append)

lemma finish_eq:
  "finish net (self, tr) i =
     (effect [reply net i] self, tr @ [report_of (http_method self) (reply net i) i])"
  by (simp add: finish_def make_request_eq)

lemma foldl_finish:
  "foldl (finish net) (self, tr) ids =
     (effect (map (reply net) ids) self,
      tr @ map (\<lambda>i. report_of (http_method self) (reply net i) i) ids)"
proof (induction ids arbitrary: self tr)
  case Nil
  show ?case by simp
next
  case (Cons i ids)
  have "effect (reply net i # map (reply net) ids) self =
      effect (map (reply net) ids) (effect [reply net i] self)"
    using effect_append [of "[reply net i]" "map (reply net) ids" self] by simp
  then show ?case
    by (simp add: finish_eq Cons.IH)
qed

lemma gather_eq:
  "gather net (self, tr) batch =
     (effect (map (reply net) (sort_key (completes net) batch)) self,
      tr @ batch_events net (http_method self) batch)"
  by (simp add: gather_def foldl_finish batch_events_def)

lemma foldl_gather:
  "foldl (gather net) (self, tr) bs =
     (effect (map (reply net) (concat (map (sort_key (completes net)) bs))) self,
      tr @ concat (map (batch_events net (http_method self)) bs))"
proof (induction bs arbitrary: self tr)
  case Nil
  show ?case by simp
next
  case (Cons b bs)
  show ?case
    by (simp add: gather_eq Cons.IH effect_append)
qed

lemma dispatch_eq:
  assumes "0 < concurrency self"
  shows "dispatch net self =
    Inr (effect (map (reply net)
           (concat (map (sort_key (completes net))
              (batches [1..num_requests self] (nat (concurrency self)))))) self,
         concat (map (batch_events net (http_method self))
           (batches [1..num_requests self] (nat (concurrency self)))))"
  using assms by (simp add: dispatch_def foldl_gather Let_def)

lemma run_eq:
  assumes "0 < concurrency self"
  shows "run net self =
    (summarize (effect (map (reply net) (completion_order net self)) self),
     effect (map (reply net) (completion_order net self)) self,
     concat (map (batch_events net (http_method self))
       (batches [1..num_requests self] (nat (concurrency self)))))"
  by (simp add: run_def dispatch_eq [OF assms] show_results_def completion_order_def)


lemma set_sorted_batches: "set (concat (map (sort_key f) bs)) = set (concat bs)"
  by (induction bs) simp_all

lemma length_sorted_batches: "length (concat (map (sort_key f) bs)) = length (concat bs)"
  by (induction bs) simp_all

lemma set_completion_order:
  assumes "0 < concurrency self"
  shows "set (completion_order net self) = {1..num_requests self}"
proof -
  from assms have "concat (batches [1..num_requests self] (nat (concurrency self)))
      = [1..num_requests self]"
    by (simp add: concat_batches)
  then have "set (completion_order net self) = set [1..num_requests self]"
    unfolding completion_order_def set_sorted_batches by (rule arg_cong)
  then show ?thesis by simp
qed

lemma length_completion_order:
  assumes "0 < concurrency self" and "0 \<le> num_requests self"
  shows "int (length (completion_order net self)) = num_requests self"
  using assms by (simp add: completion_order_def length_sorted_batches concat_batches)




lemma effect_results:
  assumes "supported (http_method self)"
  shows "results (effect ocs self) = results self @ durations ocs"
  using assms by (simp add: effect_def)

lemma raised_not_ok: "raised oc \<Longrightarrow> \<not> ok oc"
  by (cases oc) simp_all

lemma durations_all_raised: "\<forall>oc\<in>set ocs. raised oc \<Longrightarrow> durations ocs = []"
  by (induction ocs rule: durations.induct) simp_all

lemma effect_all_raised:
  assumes sup: "supported (http_method self)" and all: "\<forall>oc\<in>set ocs. raised oc"
  shows "effect ocs self = self\<lparr>failed_requests := failed_requests self + int (length ocs)\<rparr>"
proof -
  from all have "filter ok ocs = []" by (auto simp: filter_empty_conv raised_not_ok)
  moreover from all have "filter (\<lambda>oc. \<not> ok oc) ocs = ocs"
    by (auto simp: filter_id_conv raised_not_ok)
  ultimately show ?thesis
    using sup by (simp add: effect_def durations_all_raised [OF all])
qed

lemma durations_all_responses:
  "\<forall>oc\<in>set ocs. \<not> raised oc \<and> 0 < elapsed_of oc \<Longrightarrow>
   length (durations ocs) = length ocs \<and> (\<forall>d\<in>set (durations ocs). 0 < d)"
  by (induction ocs rule: durations.induct) simp_all

lemma sum_list_pos_rat:
  fixes xs :: "rat list"
  shows "xs \<noteq> [] \<Longrightarrow> \<forall>x\<in>set xs. 0 < x \<Longrightarrow> 0 < sum_list xs"
proof (induction xs)
  case Nil
  then show ?case by simp
next
  case (Cons a xs)
  show ?case
  proof (cases "xs = []")
    case True
    with Cons.prems show ?thesis by simp
  next
    case False
    with Cons have "0 < sum_list xs" by simp
    moreover from Cons.prems have "0 < a" by simp
    ultimately show ?thesis by simp
  qed
qed

lemma report_in_events:
  "i \<in> set (concat bs) \<Longrightarrow>
   report_of m (reply net i) i \<in> set (concat (map (batch_events net m) bs))"
  by (auto simp: batch_events_def)

lemma summarize_Results_rps:
  assumes ne: "results self \<noteq> []" and n0: "num_requests self \<noteq> 0"
    and s0: "sum_list (results self) \<noteq> 0"
  shows "\<exists>r. summarize self = Inr (Results r) \<and>
    requests_per_second r = of_int (successful_requests self) / sum_list (results self) \<and>
    successful r = successful_requests self \<and> failed r = failed_requests self"
proof -
  from summarize_Results [OF assms] obtain md where
    "summarize self = Inr (Results
      \<lparr> total_requests = num_requests self,
        successful = successful_requests self,
        failed = failed_requests self,
        success_rate = of_int (successful_requests self) / of_int (num_requests self) * 100,
        avg_time = sum_list (results self) / of_nat (length (results self)),
        min_time = Min (set (results self)),
        max_time = Max (set (results self)),
        median_time = md,
        p95_time = sort (results self) ! ((95 * length (results self)) div 100),
        p99_time = sort (results self) ! ((99 * length (results self)) div 100),
        requests_per_second = of_int (successful_requests self) / sum_list (results self) \<rparr>)"
    by blast
  then show ?thesis by simp
qed

lemma ends_report_of [simp]: "ends (report_of m oc i) = Some i"
  by (cases oc) (simp_all add: report_of_def)

lemma report_of_not_Begin [simp]: "report_of m oc i \<noteq> Begin j"
  by (cases oc) (simp_all add: report_of_def)

lemma Begin_not_report_of [simp]: "Begin j \<noteq> report_of m oc i"
  by (cases oc) (simp_all add: report_of_def)

lemma Begin_in_batch_events: "Begin j \<in> set (batch_events net m b) \<longleftrightarrow> j \<in> set b"
  by (auto simp: batch_events_def)

lemma Begin_in_events:
  "Begin j \<in> set (concat (map (batch_events net m) cs)) \<longleftrightarrow> j \<in> set (concat cs)"
  by (induction cs) (simp_all add: Begin_in_batch_events)

lemma split_after_prefix:
  assumes "pre @ x # post = A @ R" and "x \<notin> set A"
  shows "\<exists>p. pre = A @ p"
proof -
  from assms(1) consider us where "pre = A @ us" | us where "A = pre @ us" "us \<noteq> []"
    by (auto simp: append_eq_append_conv2) metis
  then show ?thesis
  proof cases
    case 1
    then show ?thesis by blast
  next
    case 2
    with assms(1) have "x # post = us @ R" by simp
    with 2 obtain us' where "us = x # us'" by (cases us) auto
    with 2 assms(2) show ?thesis by simp
  qed
qed

lemma earlier_batch_reported:
  assumes dist: "distinct (concat bs)"
    and k: "k < k'" "k' < length bs"
    and i: "i \<in> set (bs ! k)" and j: "j \<in> set (bs ! k')"
    and split: "concat (map (batch_events net m) bs) = pre @ Begin j # post"
  shows "\<exists>e\<in>set pre. ends e = Some i"
proof -
  let ?ev = "batch_events net m"
  let ?A = "concat (map ?ev (take k' bs))"
  have bs: "bs = take k' bs @ bs ! k' # drop (Suc k') bs"
    using k(2) by (rule id_take_nth_drop)
  then have "concat bs = concat (take k' bs) @ bs ! k' @ concat (drop (Suc k') bs)"
    by (metis concat.simps(2) concat_append)
  with dist have "distinct (concat (take k' bs) @ bs ! k' @ concat (drop (Suc k') bs))"
    by simp
  then have "set (concat (take k' bs)) \<inter> set (bs ! k') = {}"
    by auto
  with j have "j \<notin> set (concat (take k' bs))" by blast
  then have notin: "Begin j \<notin> set ?A"
    by (simp only: Begin_in_events not_False_eq_True)
  have "concat (map ?ev bs) = ?A @ (?ev (bs ! k') @ concat (map ?ev (drop (Suc k') bs)))"
    by (subst bs) (simp only: map_append concat_append list.map concat.simps)
  with split have "pre @ Begin j # post = ?A @ (?ev (bs ! k') @ concat (map ?ev (drop (Suc k') bs)))"
    by simp
  from split_after_prefix [OF this notin] obtain p where pre: "pre = ?A @ p" by blast
  from k have "bs ! k \<in> set (take k' bs)"
    by (metis length_take min.absorb2 less_imp_le nth_mem nth_take order_less_trans)
  with i have "i \<in> set (concat (take k' bs))" by auto
  then have "report_of m (reply net i) i \<in> set ?A"
    by (rule report_in_events)
  then have "report_of m (reply net i) i \<in> set pre"
    unfolding pre by simp
  then show ?thesis
    using ends_report_of by blast
qed

section \<open>The claims about the summary\<close>

text \<open>
  Claim C2. One request answered \<open>200\<close> with an elapsed time of zero: the list of
  durations is \<open>[0]\<close>, its sum is zero, and the division of line 113 raises
  \<open>ZeroDivisionError\<close>, which leaves \<open>show_results\<close> and \<open>run\<close>.
\<close>

theorem zero_sum_raises:
  "fst (run instant single_get) = Inl ZeroDivisionError"
  by code_simp

text \<open>
  Claim C4. When the list of durations is empty, \<open>show_results\<close> reports that there is
  nothing to analyse and stops: the report is \<open>NoData\<close>, which carries no statistic, and
  the result is not an error, whatever \<open>num_requests\<close> is (also zero).
\<close>

theorem empty_results_no_data:
  assumes "results self = []"
  shows "show_results self = (Inr NoData, self)"
  using assms by (simp add: show_results_def summarize_def)

theorem empty_results_no_data_witness:
  "results (init ''http://x'' ''PATCH'' None None 0 2 30) = [] \<and>
   show_results (init ''http://x'' ''PATCH'' None None 0 2 30) =
     (Inr NoData, init ''http://x'' ''PATCH'' None None 0 2 30)"
  using empty_results_no_data [of "init ''http://x'' ''PATCH'' None None 0 2 30"]
  by (simp add: init_def)

text \<open>
  Claim C5. The success rate printed by \<open>show_results\<close> is
  \<open>successful_requests / num_requests * 100\<close>: the denominator is the configured number
  of requests, not the number of recorded durations. The witness is the example of ten
  configured requests with seven successes and seven durations: 70, not 100.
\<close>

theorem success_rate_of_configured_total:
  assumes "results self \<noteq> []" and "num_requests self \<noteq> 0"
  shows "rate self = Inr (of_int (successful_requests self) / of_int (num_requests self) * 100) \<and>
    (sum_list (results self) \<noteq> 0 \<longrightarrow>
      (\<exists>r. summarize self = Inr (Results r) \<and>
        success_rate r = of_int (successful_requests self) / of_int (num_requests self) * 100))"
proof
  from assms(2)
  show "rate self = Inr (of_int (successful_requests self) / of_int (num_requests self) * 100)"
    by (simp add: rate_def truediv_def)
next
  show "sum_list (results self) \<noteq> 0 \<longrightarrow>
      (\<exists>r. summarize self = Inr (Results r) \<and>
        success_rate r = of_int (successful_requests self) / of_int (num_requests self) * 100)"
  proof
    assume "sum_list (results self) \<noteq> 0"
    from summarize_Results [OF assms this] obtain md where
      "summarize self = Inr (Results
      \<lparr> total_requests = num_requests self,
        successful = successful_requests self,
        failed = failed_requests self,
        success_rate = of_int (successful_requests self) / of_int (num_requests self) * 100,
        avg_time = sum_list (results self) / of_nat (length (results self)),
        min_time = Min (set (results self)),
        max_time = Max (set (results self)),
        median_time = md,
        p95_time = sort (results self) ! ((95 * length (results self)) div 100),
        p99_time = sort (results self) ! ((99 * length (results self)) div 100),
        requests_per_second = of_int (successful_requests self) / sum_list (results self) \<rparr>)"
      by blast
    then show "\<exists>r. summarize self = Inr (Results r) \<and>
        success_rate r = of_int (successful_requests self) / of_int (num_requests self) * 100"
      by simp
  qed
qed

theorem success_rate_of_configured_total_witness:
  "results seven_of_ten \<noteq> [] \<and> num_requests seven_of_ten \<noteq> 0 \<and>
   sum_list (results seven_of_ten) \<noteq> 0 \<and>
   rate seven_of_ten = Inr 70 \<and>
   (\<exists>r. summarize seven_of_ten = Inr (Results r) \<and> success_rate r = 70)"
  using success_rate_of_configured_total [of seven_of_ten]
  by (simp add: seven_of_ten_def init_def)

text \<open>
  Claim C6. On a non-empty list of durations the two percentiles are the elements of the
  sorted list at \<open>floor (0.95 * L)\<close> and \<open>floor (0.99 * L)\<close>; taking the minimum with
  the last valid index changes nothing, and both are available. For five durations both
  are the maximum.
\<close>

theorem percentiles_nearest_rank:
  assumes "xs \<noteq> []"
  shows "percentiles xs =
      (Some (sort xs ! min (nat \<lfloor>(95 / 100 :: rat) * of_nat (length xs)\<rfloor>) (length xs - 1)),
       Some (sort xs ! min (nat \<lfloor>(99 / 100 :: rat) * of_nat (length xs)\<rfloor>) (length xs - 1))) \<and>
    (length xs = 5 \<longrightarrow> percentiles xs = (Some (Max (set xs)), Some (Max (set xs))))"
proof -
  let ?n = "length xs"
  from assms have pos: "0 < ?n" by simp
  have f95: "nat \<lfloor>(95 / 100 :: rat) * of_nat ?n\<rfloor> = (95 * ?n) div 100"
    using pct_index_95 [of ?n] by (simp add: pct_index_def py_int_def mult.commute)
  have f99: "nat \<lfloor>(99 / 100 :: rat) * of_nat ?n\<rfloor> = (99 * ?n) div 100"
    using pct_index_99 [of ?n] by (simp add: pct_index_def py_int_def mult.commute)
  have m95: "min ((95 * ?n) div 100) (?n - 1) = (95 * ?n) div 100"
    using pos by arith
  have m99: "min ((99 * ?n) div 100) (?n - 1) = (99 * ?n) div 100"
    using pos by arith
  have general: "percentiles xs =
      (Some (sort xs ! min (nat \<lfloor>(95 / 100 :: rat) * of_nat ?n\<rfloor>) (?n - 1)),
       Some (sort xs ! min (nat \<lfloor>(99 / 100 :: rat) * of_nat ?n\<rfloor>) (?n - 1)))"
    unfolding f95 f99 m95 m99 by (rule percentiles_nonempty [OF assms])
  have five: "percentiles xs = (Some (Max (set xs)), Some (Max (set xs)))" if "?n = 5"
  proof -
    from that have "(95 * ?n) div 100 = ?n - 1" "(99 * ?n) div 100 = ?n - 1" by simp_all
    then show ?thesis
      using percentiles_nonempty [OF assms] nth_sort_last [OF assms] by simp
  qed
  from general five show ?thesis by blast
qed

theorem percentiles_nearest_rank_witness:
  "[5, 3, 1, 4, 2 :: rat] \<noteq> [] \<and> length [5, 3, 1, 4, 2 :: rat] = 5 \<and>
   percentiles [5, 3, 1, 4, 2] = (Some 5, Some 5)"
proof -
  have ne: "[5, 3, 1, 4, 2 :: rat] \<noteq> []" by simp
  from percentiles_nearest_rank [OF ne]
  have "length [5, 3, 1, 4, 2 :: rat] = 5 \<longrightarrow>
      percentiles [5, 3, 1, 4, 2] =
        (Some (Max (set [5, 3, 1, 4, 2])), Some (Max (set [5, 3, 1, 4, 2])))"
    by (rule conjunct2)
  then show ?thesis by simp
qed

text \<open>
  Claim C7. For a list of length at least one both percentile indices are non-negative and
  below the length, so neither read raises \<open>IndexError\<close> and the handler of lines
  108-110 is not entered.
\<close>

theorem percentile_indices_in_range:
  assumes "1 \<le> length xs"
  shows "0 \<le> pct_index (95 / 100) (length xs) \<and> pct_index (95 / 100) (length xs) < int (length xs) \<and>
    0 \<le> pct_index (99 / 100) (length xs) \<and> pct_index (99 / 100) (length xs) < int (length xs) \<and>
    getitem (sort xs) (pct_index (95 / 100) (length xs)) \<noteq> Inl IndexError \<and>
    getitem (sort xs) (pct_index (99 / 100) (length xs)) \<noteq> Inl IndexError \<and>
    fst (percentiles xs) \<noteq> None \<and> snd (percentiles xs) \<noteq> None"
proof -
  let ?n = "length xs"
  from assms have ne: "xs \<noteq> []" by auto
  from assms have lt: "(95 * ?n) div 100 < ?n" "(99 * ?n) div 100 < ?n" by arith+
  have "0 \<le> pct_index (95 / 100) ?n \<and> pct_index (95 / 100) ?n < int ?n"
    unfolding pct_index_95 using lt by simp
  moreover have "0 \<le> pct_index (99 / 100) ?n \<and> pct_index (99 / 100) ?n < int ?n"
    unfolding pct_index_99 using lt by simp
  moreover have "getitem (sort xs) (pct_index (95 / 100) ?n) \<noteq> Inl IndexError"
    unfolding pct_index_95 getitem_nat using lt by simp
  moreover have "getitem (sort xs) (pct_index (99 / 100) ?n) \<noteq> Inl IndexError"
    unfolding pct_index_99 getitem_nat using lt by simp
  moreover have "fst (percentiles xs) \<noteq> None \<and> snd (percentiles xs) \<noteq> None"
    by (simp add: percentiles_nonempty [OF ne])
  ultimately show ?thesis by blast
qed

theorem percentile_indices_in_range_witness:
  "1 \<le> length [7 :: rat] \<and>
   pct_index (95 / 100) (length [7 :: rat]) = 0 \<and> pct_index (99 / 100) (length [7 :: rat]) = 0 \<and>
   fst (percentiles [7]) \<noteq> None \<and> snd (percentiles [7]) \<noteq> None"
  using percentile_indices_in_range [of "[7]"]
  by simp

text \<open>
  Claim C8. For a non-empty list of non-negative durations the minimum, the median and the
  maximum exist and \<open>min \<le> median \<le> max \<le> sum\<close>.
\<close>

theorem statistics_ordered:
  assumes "1 \<le> length xs" and "\<forall>x\<in>set xs. 0 \<le> x"
  shows "\<exists>mn md mx. py_min xs = Inr mn \<and> median xs = Inr md \<and> py_max xs = Inr mx \<and>
    mn \<le> md \<and> md \<le> mx \<and> mx \<le> sum_list xs"
proof -
  from assms(1) have ne: "xs \<noteq> []" by auto
  from median_nonempty [OF ne] obtain md where
    md: "median xs = Inr md" "Min (set xs) \<le> md" "md \<le> Max (set xs)" by blast
  have "Max (set xs) \<in> set xs" using ne by simp
  then have "Max (set xs) \<le> sum_list xs"
    using assms(2) by (rule member_le_sum_list_nonneg)
  with md ne show ?thesis
    by (simp add: py_min_def py_max_def)
qed

theorem statistics_ordered_witness:
  "1 \<le> length [3, 1, 2 :: rat] \<and> (0 :: rat) \<le> 3 \<and> (0 :: rat) \<le> 1 \<and> (0 :: rat) \<le> 2 \<and>
   (\<exists>mn md mx. py_min [3, 1, 2] = Inr mn \<and> median [3, 1, 2] = Inr md \<and>
      py_max [3, 1, 2] = Inr mx \<and> mn \<le> md \<and> md \<le> mx \<and> mx \<le> sum_list [3, 1, 2])"
  using statistics_ordered [of "[3, 1, 2]"]
  by simp

text \<open>
  Claim C10. Let the store hold the object. \<open>show_results\<close> gives the report that
  \<open>summarize\<close> computes and leaves a store that still holds the same object: the three
  counters and the reference \<open>self.results\<close> are as before, and the list of durations is
  the same list with its elements in the same order. The only change to the store is that
  new lists are appended: none when the list is empty or \<open>num_requests\<close> is zero,
  otherwise three sorted copies of the durations (one made by \<open>statistics.median\<close>, two
  by the percentile lines). Asking again gives the same report.
\<close>

theorem show_results_frame:
  assumes o: "object_in h self"
  shows "fst (show_results_in h) = summarize self \<and>
    object_in (snd (show_results_in h)) self \<and>
    attr_num_requests (snd (show_results_in h)) = attr_num_requests h \<and>
    attr_successful_requests (snd (show_results_in h)) = attr_successful_requests h \<and>
    attr_failed_requests (snd (show_results_in h)) = attr_failed_requests h \<and>
    attr_results (snd (show_results_in h)) = attr_results h \<and>
    objects (snd (show_results_in h)) ! attr_results h = objects h ! attr_results h \<and>
    objects (snd (show_results_in h)) = objects h @
      (if results self = [] \<or> num_requests self = 0 then []
       else [sort (results self), sort (results self), sort (results self)]) \<and>
    fst (show_results_in (snd (show_results_in h))) = fst (show_results_in h)"
proof -
  let ?new = "if results self = [] \<or> num_requests self = 0 then []
       else [sort (results self), sort (results self), sort (results self)]"
  let ?h' = "h\<lparr>objects := objects h @ ?new\<rparr>"
  have eq: "show_results_in h = (summarize self, ?h')"
    by (rule show_results_in_eq [OF o])
  have o': "object_in ?h' self"
    using o by (rule object_in_alloc)
  have again: "show_results_in ?h' = (summarize self, ?h'\<lparr>objects := objects ?h' @ ?new\<rparr>)"
    by (rule show_results_in_eq [OF o'])
  from o have "attr_results h < length (objects h)" by (simp add: object_in_def)
  then have same: "objects ?h' ! attr_results h = objects h ! attr_results h"
    by (simp add: nth_append)
  show ?thesis
    unfolding eq fst_conv snd_conv again
    using o' same by simp
qed

theorem show_results_frame_witness:
  "object_in unsorted_heap unsorted_object \<and>
   fst (show_results_in unsorted_heap) = summarize unsorted_object \<and>
   attr_successful_requests (snd (show_results_in unsorted_heap)) = 2 \<and>
   attr_failed_requests (snd (show_results_in unsorted_heap)) = 1 \<and>
   objects (snd (show_results_in unsorted_heap)) ! 1 = [3 / 10, 1 / 10, 2 / 10] \<and>
   objects (snd (show_results_in unsorted_heap)) =
     [[9], [3 / 10, 1 / 10, 2 / 10],
      [1 / 10, 2 / 10, 3 / 10], [1 / 10, 2 / 10, 3 / 10], [1 / 10, 2 / 10, 3 / 10]]"
proof -
  have o: "object_in unsorted_heap unsorted_object"
    by (simp add: object_in_def unsorted_heap_def unsorted_object_def init_def)
  have xs: "results unsorted_object = [3 / 10, 1 / 10, 2 / 10]"
    "num_requests unsorted_object = 3" "successful_requests unsorted_object = 2"
    "failed_requests unsorted_object = 1"
    by (simp_all add: unsorted_object_def init_def)
  have h: "objects unsorted_heap = [[9], [3 / 10, 1 / 10, 2 / 10]]" "attr_results unsorted_heap = 1"
    by (simp_all add: unsorted_heap_def)
  have srt: "sort [3 / 10, 1 / 10, 2 / 10 :: rat] = [1 / 10, 2 / 10, 3 / 10]"
    by simp
  from show_results_frame [OF o]
  have f: "fst (show_results_in unsorted_heap) = summarize unsorted_object"
    "object_in (snd (show_results_in unsorted_heap)) unsorted_object"
    "objects (snd (show_results_in unsorted_heap)) ! attr_results unsorted_heap
       = objects unsorted_heap ! attr_results unsorted_heap"
    "objects (snd (show_results_in unsorted_heap)) = objects unsorted_heap @
      (if results unsorted_object = [] \<or> num_requests unsorted_object = 0 then []
       else [sort (results unsorted_object), sort (results unsorted_object),
             sort (results unsorted_object)])"
    by blast+
  have "attr_successful_requests (snd (show_results_in unsorted_heap)) = 2"
    "attr_failed_requests (snd (show_results_in unsorted_heap)) = 1"
    using f(2) by (simp_all add: object_in_def xs)
  moreover have "objects (snd (show_results_in unsorted_heap)) ! 1 = [3 / 10, 1 / 10, 2 / 10]"
    using f(3) by (simp add: h)
  moreover have "objects (snd (show_results_in unsorted_heap)) =
     [[9], [3 / 10, 1 / 10, 2 / 10],
      [1 / 10, 2 / 10, 3 / 10], [1 / 10, 2 / 10, 3 / 10], [1 / 10, 2 / 10, 3 / 10]]"
    unfolding f(4) xs h srt by simp
  ultimately show ?thesis using o f(1) by blast
qed

section \<open>The claims about the run\<close>




text \<open>
  Claim C3, as amended. On a fresh object with a supported method and \<open>N, C \<ge> 1\<close>: when
  every request raises, all \<open>N\<close> are counted as failed, each elapsed time is printed in
  the request's line, no duration is recorded, and the summary is \<open>NoData\<close>, with no
  throughput; when every request is answered with a status outside \<open>[200, 300)\<close> after
  a positive elapsed time, all \<open>N\<close> are counted as failed, \<open>N\<close> durations are recorded and
  the throughput is \<open>0 / sum = 0\<close>.
\<close>

theorem all_requests_fail:
  assumes sup: "supported (http_method self)"
    and c: "1 \<le> concurrency self" and n: "1 \<le> num_requests self"
    and fresh: "results self = []" "successful_requests self = 0"
  shows "((\<forall>i\<in>{1..num_requests self}. raised (reply net i)) \<longrightarrow>
      fst (run net self) = Inr NoData \<and>
      fst (snd (run net self)) = self\<lparr>failed_requests := failed_requests self + num_requests self\<rparr> \<and>
      (\<forall>i\<in>{1..num_requests self}.
         Failed i (elapsed_of (reply net i)) \<in> set (snd (snd (run net self))))) \<and>
    ((\<forall>i\<in>{1..num_requests self}.
        \<not> raised (reply net i) \<and> \<not> ok (reply net i) \<and> 0 < elapsed_of (reply net i)) \<longrightarrow>
      (\<exists>r. fst (run net self) = Inr (Results r) \<and> requests_per_second r = 0 \<and>
           successful r = 0 \<and> failed r = failed_requests self + num_requests self) \<and>
      int (length (results (fst (snd (run net self))))) = num_requests self)"
proof (intro conjI impI)
  let ?ord = "completion_order net self"
  let ?ocs = "map (reply net) ?ord"
  let ?bs = "batches [1..num_requests self] (nat (concurrency self))"
  from c have pos: "0 < concurrency self" by simp
  from n have nn: "0 \<le> num_requests self" by simp
  have len: "int (length ?ocs) = num_requests self"
    using length_completion_order [OF pos nn, of net] by simp
  have st: "fst (snd (run net self)) = effect ?ocs self"
    and rep: "fst (run net self) = summarize (effect ?ocs self)"
    and out: "snd (snd (run net self)) = concat (map (batch_events net (http_method self)) ?bs)"
    by (simp_all add: run_eq [OF pos])
  {
    assume all: "\<forall>i\<in>{1..num_requests self}. raised (reply net i)"
    then have all': "\<forall>oc\<in>set ?ocs. raised oc"
      by (simp add: set_completion_order [OF pos])
    have eff: "effect ?ocs self = self\<lparr>failed_requests := failed_requests self + num_requests self\<rparr>"
      using effect_all_raised [OF sup all'] len by simp
    show "fst (run net self) = Inr NoData"
      unfolding rep eff using fresh by (simp add: summarize_def)
    show "fst (snd (run net self)) = self\<lparr>failed_requests := failed_requests self + num_requests self\<rparr>"
      unfolding st by (rule eff)
    show "\<forall>i\<in>{1..num_requests self}.
         Failed i (elapsed_of (reply net i)) \<in> set (snd (snd (run net self)))"
    proof
      fix i assume i: "i \<in> {1..num_requests self}"
      with all have "raised (reply net i)" by blast
      then have "report_of (http_method self) (reply net i) i = Failed i (elapsed_of (reply net i))"
        using sup by (cases "reply net i") (simp_all add: report_of_def)
      moreover from i have "i \<in> set (concat ?bs)"
        using pos by (simp add: concat_batches)
      ultimately show "Failed i (elapsed_of (reply net i)) \<in> set (snd (snd (run net self)))"
        unfolding out using report_in_events [of i ?bs "http_method self" net] by simp
    qed
  }
  {
    assume all: "\<forall>i\<in>{1..num_requests self}.
        \<not> raised (reply net i) \<and> \<not> ok (reply net i) \<and> 0 < elapsed_of (reply net i)"
    then have resp: "\<forall>oc\<in>set ?ocs. \<not> raised oc \<and> 0 < elapsed_of oc"
      and bad: "\<forall>oc\<in>set ?ocs. \<not> ok oc"
      by (simp_all add: set_completion_order [OF pos])
    from bad have nook: "filter ok ?ocs = []"
      by (simp add: filter_empty_conv)
    from bad have allbad: "filter (\<lambda>oc. \<not> ok oc) ?ocs = ?ocs"
      by (simp add: filter_id_conv)
    from durations_all_responses [OF resp]
    have dl: "length (durations ?ocs) = length ?ocs" and dp: "\<forall>d\<in>set (durations ?ocs). 0 < d"
      by blast+
    have res: "results (effect ?ocs self) = durations ?ocs"
      using effect_results [OF sup, of ?ocs] fresh by simp
    have succ: "successful_requests (effect ?ocs self) = 0"
      using sup fresh nook by (simp add: effect_def)
    have fail: "failed_requests (effect ?ocs self) = failed_requests self + num_requests self"
      using sup allbad len by (simp add: effect_def)
    have nreq: "num_requests (effect ?ocs self) = num_requests self"
      by (simp add: effect_def)
    from dl len n have ne: "durations ?ocs \<noteq> []" by auto
    from sum_list_pos_rat [OF ne dp] have sp: "sum_list (durations ?ocs) \<noteq> 0" by simp
    from summarize_Results_rps [of "effect ?ocs self"] ne sp n
    obtain r where r: "summarize (effect ?ocs self) = Inr (Results r)"
      "requests_per_second r = of_int (successful_requests (effect ?ocs self)) / sum_list (results (effect ?ocs self))"
      "successful r = successful_requests (effect ?ocs self)"
      "failed r = failed_requests (effect ?ocs self)"
      unfolding res nreq by auto
    then show "\<exists>r. fst (run net self) = Inr (Results r) \<and> requests_per_second r = 0 \<and>
           successful r = 0 \<and> failed r = failed_requests self + num_requests self"
      unfolding rep succ fail by simp
    show "int (length (results (fst (snd (run net self))))) = num_requests self"
      unfolding st res dl by (rule len)
  }
qed

theorem all_requests_fail_witness:
  "supported (http_method four_by_two) \<and> 1 \<le> concurrency four_by_two \<and>
   1 \<le> num_requests four_by_two \<and> results four_by_two = [] \<and>
   successful_requests four_by_two = 0 \<and>
   raised (reply always_raises 1) \<and> raised (reply always_raises 2) \<and>
   raised (reply always_raises 3) \<and> raised (reply always_raises 4) \<and>
   fst (run always_raises four_by_two) = Inr NoData \<and>
   failed_requests (fst (snd (run always_raises four_by_two))) = 4 \<and>
   results (fst (snd (run always_raises four_by_two))) = [] \<and>
   Failed 3 1 \<in> set (snd (snd (run always_raises four_by_two))) \<and>
   \<not> ok (reply always_503 1) \<and> \<not> ok (reply always_503 2) \<and>
   \<not> ok (reply always_503 3) \<and> \<not> ok (reply always_503 4) \<and>
   (\<exists>r. fst (run always_503 four_by_two) = Inr (Results r) \<and> requests_per_second r = 0 \<and>
        successful r = 0 \<and> failed r = 4) \<and>
   length (results (fst (snd (run always_503 four_by_two)))) = 4"
proof -
  have sup: "supported (http_method four_by_two)" by code_simp
  have c: "1 \<le> concurrency four_by_two" by (simp add: four_by_two_def init_def)
  have n: "1 \<le> num_requests four_by_two" by (simp add: four_by_two_def init_def)
  have fresh: "results four_by_two = []" "successful_requests four_by_two = 0"
    by (simp_all add: four_by_two_def init_def)
  have vals: "num_requests four_by_two = 4" "failed_requests four_by_two = 0"
    by (simp_all add: four_by_two_def init_def)
  have r: "\<forall>i\<in>{1..num_requests four_by_two}. raised (reply always_raises i)"
    by (simp add: always_raises_def)
  have s: "\<forall>i\<in>{1..num_requests four_by_two}.
      \<not> raised (reply always_503 i) \<and> \<not> ok (reply always_503 i) \<and> 0 < elapsed_of (reply always_503 i)"
    by (simp add: always_503_def)
  from all_requests_fail [OF sup c n fresh, of always_raises] r
  have a: "fst (run always_raises four_by_two) = Inr NoData"
    "fst (snd (run always_raises four_by_two)) =
       four_by_two\<lparr>failed_requests := failed_requests four_by_two + num_requests four_by_two\<rparr>"
    "\<forall>i\<in>{1..num_requests four_by_two}.
         Failed i (elapsed_of (reply always_raises i)) \<in> set (snd (snd (run always_raises four_by_two)))"
    by blast+
  from a(3) have a3: "Failed 3 (elapsed_of (reply always_raises 3)) \<in> set (snd (snd (run always_raises four_by_two)))"
    by (simp add: vals)
  from all_requests_fail [OF sup c n fresh, of always_503] s
  have b: "\<exists>r. fst (run always_503 four_by_two) = Inr (Results r) \<and> requests_per_second r = 0 \<and>
           successful r = 0 \<and> failed r = failed_requests four_by_two + num_requests four_by_two"
    "int (length (results (fst (snd (run always_503 four_by_two))))) = num_requests four_by_two"
    by blast+
  have "raised (reply always_raises 1) \<and> raised (reply always_raises 2) \<and>
   raised (reply always_raises 3) \<and> raised (reply always_raises 4)"
    by (simp add: always_raises_def)
  moreover have "\<not> ok (reply always_503 1) \<and> \<not> ok (reply always_503 2) \<and>
   \<not> ok (reply always_503 3) \<and> \<not> ok (reply always_503 4)"
    by (simp add: always_503_def)
  moreover have "failed_requests (fst (snd (run always_raises four_by_two))) = 4"
    "results (fst (snd (run always_raises four_by_two))) = []"
    unfolding a(2) by (simp_all add: vals fresh)
  moreover have "Failed 3 1 \<in> set (snd (snd (run always_raises four_by_two)))"
    using a3 by (simp add: always_raises_def)
  moreover have "\<exists>r. fst (run always_503 four_by_two) = Inr (Results r) \<and> requests_per_second r = 0 \<and>
        successful r = 0 \<and> failed r = 4"
    using b(1) by (simp add: vals)
  moreover have "length (results (fst (snd (run always_503 four_by_two)))) = 4"
    using b(2) by (simp add: vals)
  ultimately show ?thesis
    using sup c n fresh a(1) by blast
qed

text \<open>
  Claim C3 as stated fails: with four requests, two at a time, all raising, no elapsed time
  is recorded and the summary is \<open>NoData\<close>: no throughput is computed.
\<close>

theorem all_raise_counterexample:
  "fst (run always_raises four_by_two) = Inr NoData \<and>
   results (fst (snd (run always_raises four_by_two))) = [] \<and>
   failed_requests (fst (snd (run always_raises four_by_two))) = 4"
  by code_simp

text \<open>
  Claim C9. For \<open>N, C \<ge> 1\<close> the batches of a run are consecutive slices of \<open>1..N\<close>: their
  concatenation is \<open>[1..N]\<close>, none is empty or longer than \<open>C\<close>, and all but the last have
  length \<open>C\<close>. The run handles them one after the other, and in its events every request
  begins, and whenever a request of a later batch begins, every request of an earlier
  batch has already reported its end.
\<close>

theorem batches_in_sequence:
  assumes c: "1 \<le> concurrency self" and n: "1 \<le> num_requests self"
  shows "concat (batches_of self) = [1..num_requests self] \<and>
    (\<forall>b\<in>set (batches_of self). b \<noteq> [] \<and> int (length b) \<le> concurrency self) \<and>
    (\<forall>b\<in>set (butlast (batches_of self)). int (length b) = concurrency self) \<and>
    dispatch net self = Inr (foldl (gather net) (self, []) (batches_of self)) \<and>
    (\<forall>j\<in>{1..num_requests self}. Begin j \<in> set (snd (snd (run net self)))) \<and>
    (\<forall>k k' i j pre post.
       k < k' \<and> k' < length (batches_of self) \<and>
       i \<in> set (batches_of self ! k) \<and> j \<in> set (batches_of self ! k') \<and>
       snd (snd (run net self)) = pre @ Begin j # post
       \<longrightarrow> (\<exists>e\<in>set pre. ends e = Some i))"
proof -
  let ?bs = "batches_of self"
  from c have pos: "0 < concurrency self" and npos: "0 < nat (concurrency self)" by simp_all
  have cat: "concat ?bs = [1..num_requests self]"
    unfolding batches_of_def by (rule concat_batches [OF npos])
  have shape: "(\<forall>b\<in>set ?bs. b \<noteq> [] \<and> length b \<le> nat (concurrency self)) \<and>
      (\<forall>b\<in>set (butlast ?bs). length b = nat (concurrency self))"
    unfolding batches_of_def by (rule batches_shape [OF npos])
  have s1: "\<forall>b\<in>set ?bs. b \<noteq> [] \<and> int (length b) \<le> concurrency self"
    using shape pos by auto
  have s2: "\<forall>b\<in>set (butlast ?bs). int (length b) = concurrency self"
    using shape pos by auto
  have disp: "dispatch net self = Inr (foldl (gather net) (self, []) ?bs)"
    using pos by (simp add: dispatch_def batches_of_def Let_def)
  have out: "snd (snd (run net self)) = concat (map (batch_events net (http_method self)) ?bs)"
    by (simp add: run_eq [OF pos] batches_of_def)
  have started: "\<forall>j\<in>{1..num_requests self}. Begin j \<in> set (snd (snd (run net self)))"
    unfolding out Begin_in_events cat by simp
  have dist: "distinct (concat ?bs)"
    unfolding cat by simp
  have seq: "\<forall>k k' i j pre post.
       k < k' \<and> k' < length ?bs \<and> i \<in> set (?bs ! k) \<and> j \<in> set (?bs ! k') \<and>
       snd (snd (run net self)) = pre @ Begin j # post
       \<longrightarrow> (\<exists>e\<in>set pre. ends e = Some i)"
    unfolding out using earlier_batch_reported [OF dist] by blast
  from cat s1 s2 disp started seq show ?thesis by blast
qed

theorem batches_in_sequence_witness:
  "1 \<le> concurrency four_by_two \<and> 1 \<le> num_requests four_by_two \<and>
   batches_of four_by_two = [[1, 2], [3, 4]] \<and>
   snd (snd (run flaky four_by_two)) =
     [Begin 1, Begin 2, Failed 2 1, Completed 1 200 (1 / 2)] @
     Begin 3 # [Begin 4, Completed 4 200 (1 / 2), Completed 3 200 (1 / 2)] \<and>
   (\<exists>e\<in>set [Begin 1, Begin 2, Failed 2 1, Completed 1 200 (1 / 2)]. ends e = Some 1)"
proof -
  have c: "1 \<le> concurrency four_by_two" by (simp add: four_by_two_def init_def)
  have n: "1 \<le> num_requests four_by_two" by (simp add: four_by_two_def init_def)
  have bs: "batches_of four_by_two = [[1, 2], [3, 4]]" by code_simp
  have out: "snd (snd (run flaky four_by_two)) =
     [Begin 1, Begin 2, Failed 2 1, Completed 1 200 (1 / 2)] @
     Begin 3 # [Begin 4, Completed 4 200 (1 / 2), Completed 3 200 (1 / 2)]"
    by code_simp
  have prem: "(0::nat) < 1 \<and> 1 < length (batches_of four_by_two) \<and>
      1 \<in> set (batches_of four_by_two ! 0) \<and> 3 \<in> set (batches_of four_by_two ! 1)"
    unfolding bs by simp
  from batches_in_sequence [OF c n, of flaky]
  have "\<forall>k k' i j pre post.
       k < k' \<and> k' < length (batches_of four_by_two) \<and>
       i \<in> set (batches_of four_by_two ! k) \<and> j \<in> set (batches_of four_by_two ! k') \<and>
       snd (snd (run flaky four_by_two)) = pre @ Begin j # post
       \<longrightarrow> (\<exists>e\<in>set pre. ends e = Some i)"
    by blast
  with prem out
  have "\<exists>e\<in>set [Begin 1, Begin 2, Failed 2 1, Completed 1 200 (1 / 2)]. ends e = Some 1"
    by blast
  with c n bs out show ?thesis by blast
qed

end
